theory Spec2Isabelle
  imports Main "HOL-Library.Word"
begin

section \<open>The line tokenizers of \<^verbatim>\<open>src/utils.cpp\<close>\<close>

text \<open>
  The unit under verification is the family of tokenizers in namespace
  \<^verbatim>\<open>newsboat::utils\<close>: \<^verbatim>\<open>append_escapes\<close>, \<^verbatim>\<open>extract_token_quoted\<close>,
  \<^verbatim>\<open>tokenize_quoted\<close>, \<^verbatim>\<open>tokenize\<close>, \<^verbatim>\<open>tokenize_spaced\<close> and \<^verbatim>\<open>tokenize_nl\<close>.
  A \<^verbatim>\<open>std::string\<close> is a \<^typ>\<open>string\<close> (a list of bytes), the delimiter set is the
  string the caller passes, and a \<^verbatim>\<open>std::vector<std::string>\<close> is a \<^typ>\<open>string list\<close>
  to which \<^verbatim>\<open>push_back\<close> appends at the end.
\<close>

subsection \<open>\<^verbatim>\<open>std::string\<close> primitives used by the source\<close>

text \<open>
  \<^verbatim>\<open>std::string::size_type\<close> is an unsigned 64-bit integer on the platforms the program
  is built for; it is modelled as a natural number below \<open>2^64\<close>, with the subtraction
  of the source written out modulo \<open>2^64\<close>. \<^verbatim>\<open>std::string::npos\<close> is its largest value.
  A \<^verbatim>\<open>std::string\<close> is always shorter than \<^verbatim>\<open>npos\<close> (its \<^verbatim>\<open>max_size()\<close> is smaller), which
  theorems about positions assume as \<open>length s < npos\<close>.
\<close>

definition size_modulus :: nat where
  "size_modulus = 18446744073709551616"

definition npos :: nat where
  "npos = 18446744073709551615"

definition sz_sub :: "nat \<Rightarrow> nat \<Rightarrow> nat" where
  \<comment> \<open>\<^verbatim>\<open>a - b\<close> on \<^verbatim>\<open>size_type\<close>: unsigned, wraps around.\<close>
  "sz_sub a b = (a + size_modulus - b) mod size_modulus"

datatype error = OutOfRange

definition substr :: "string \<Rightarrow> nat \<Rightarrow> nat \<Rightarrow> error + string" where
  \<comment> \<open>\<^verbatim>\<open>str.substr(pos, n)\<close>: throws \<^verbatim>\<open>std::out_of_range\<close> when \<^verbatim>\<open>pos > size()\<close>,
      otherwise the characters \<^verbatim>\<open>[pos, pos + min(n, size() - pos))\<close>.
      \<^verbatim>\<open>str.substr(pos)\<close> is \<^verbatim>\<open>str.substr(pos, npos)\<close>.\<close>
  "substr str pos n =
     (if pos > length str then Inl OutOfRange else Inr (take n (drop pos str)))"

definition find_first_of :: "string \<Rightarrow> string \<Rightarrow> nat \<Rightarrow> nat" where
  \<comment> \<open>\<^verbatim>\<open>str.find_first_of(chars, pos)\<close>: the first index at or after \<^verbatim>\<open>pos\<close> holding a
      character of \<^verbatim>\<open>chars\<close>, \<^verbatim>\<open>npos\<close> when there is none (also when \<^verbatim>\<open>pos >= size()\<close>).\<close>
  "find_first_of str chars pos =
     (let rest = drop pos str;
          k = length (takeWhile (\<lambda>c. c \<notin> set chars) rest)
      in if k < length rest then pos + k else npos)"

definition find_first_not_of :: "string \<Rightarrow> string \<Rightarrow> nat \<Rightarrow> nat" where
  \<comment> \<open>\<^verbatim>\<open>str.find_first_not_of(chars, pos)\<close>: the first index at or after \<^verbatim>\<open>pos\<close> holding a
      character that is not in \<^verbatim>\<open>chars\<close>, \<^verbatim>\<open>npos\<close> when there is none.\<close>
  "find_first_not_of str chars pos =
     (let rest = drop pos str;
          k = length (takeWhile (\<lambda>c. c \<in> set chars) rest)
      in if k < length rest then pos + k else npos)"

definition str_at :: "string \<Rightarrow> nat \<Rightarrow> char" where
  \<comment> \<open>\<^verbatim>\<open>str[i]\<close>: \<^verbatim>\<open>str[size()]\<close> is the terminating null character. The source reads
      \<^verbatim>\<open>str[0]\<close> and \<^verbatim>\<open>str[pos]\<close> with \<^verbatim>\<open>pos < str.length()\<close> only.\<close>
  "str_at str i = (if i < length str then str ! i else CHR 0x00)"

abbreviation line_feed :: char where "line_feed \<equiv> CHR 0x0A"
abbreviation carriage_return :: char where "carriage_return \<equiv> CHR 0x0D"
abbreviation tab :: char where "tab \<equiv> CHR 0x09"
abbreviation dquote :: char where "dquote \<equiv> CHR 0x22"
abbreviation backslash :: char where "backslash \<equiv> CHR 0x5C"
abbreviation backtick :: char where "backtick \<equiv> CHR 0x60"
abbreviation hash :: char where "hash \<equiv> CHR 0x23"

subsection \<open>\<^verbatim>\<open>append_escapes\<close>\<close>

definition append_escapes :: "string \<Rightarrow> char \<Rightarrow> string" where
  \<comment> \<open>The \<^verbatim>\<open>switch\<close> of the source, case by case; the accumulator is returned.\<close>
  "append_escapes str c =
     (if c = CHR ''n'' then str @ [line_feed]
      else if c = CHR ''r'' then str @ [carriage_return]
      else if c = CHR ''t'' then str @ [tab]
      else if c = dquote then str @ [dquote]
      else if c = backtick then str @ [backslash, backtick]
      else if c = backslash then str @ [backslash]
      else str @ [c])"

subsection \<open>\<^verbatim>\<open>extract_token_quoted\<close> and \<^verbatim>\<open>tokenize_quoted\<close>\<close>

text \<open>
  The scanning loop of a quoted token, \<^verbatim>\<open>while (pos < str.length())\<close>, returns the token
  built so far and the position it stopped at. \<^verbatim>\<open>break\<close> is the branch that returns.
\<close>

function scan_quoted :: "string \<Rightarrow> nat \<Rightarrow> string \<Rightarrow> string \<times> nat" where
  "scan_quoted str pos token =
     (if pos < length str then
        (if str_at str pos = dquote then (token, pos + 1)
         else if str_at str pos = backslash then
           (let pos1 = pos + 1
            in if pos1 < length str
               then scan_quoted str (pos1 + 1) (append_escapes token (str_at str pos1))
               else scan_quoted str pos1 token)
         else scan_quoted str (pos + 1) (token @ [str_at str pos]))
      else (token, pos))"
  by pat_completeness auto
termination
  by (relation "measure (\<lambda>(str, pos, token). length str - pos)") auto

declare scan_quoted.simps [simp del]

text \<open>
  \<^verbatim>\<open>extract_token_quoted\<close> takes the cursor by reference and returns an optional token;
  the model returns the optional token together with the new cursor.
\<close>

definition extract_token_quoted ::
  "string \<Rightarrow> string \<Rightarrow> error + (string option \<times> string)" where
  "extract_token_quoted str delimiters =
     (let first_non_delimiter = find_first_not_of str delimiters 0
      in if first_non_delimiter = npos then Inr (None, [])
         else
           (case substr str first_non_delimiter npos of
              Inl e \<Rightarrow> Inl e
            | Inr str1 \<Rightarrow>
                if str_at str1 0 = hash then Inr (None, [])
                else if str_at str1 0 = dquote then
                  (let (token, pos) = scan_quoted str1 1 []
                   in case substr str1 pos npos of
                        Inl e \<Rightarrow> Inl e
                      | Inr str2 \<Rightarrow> Inr (Some token, str2))
                else
                  (let end_of_token = find_first_of str1 delimiters 0
                   in case substr str1 0 end_of_token of
                        Inl e \<Rightarrow> Inl e
                      | Inr token \<Rightarrow>
                          if end_of_token = npos then Inr (Some token, [])
                          else
                            (case substr str1 end_of_token npos of
                               Inl e \<Rightarrow> Inl e
                             | Inr str2 \<Rightarrow> Inr (Some token, str2)))))"

text \<open>
  The loop \<^verbatim>\<open>while (!remaining.empty())\<close> of \<^verbatim>\<open>tokenize_quoted\<close>. Whether it ends is a
  property to prove, so the loop is a partial function: \<open>None\<close> is a run that never
  returns, \<open>Some (Inl e)\<close> an exception that escapes, \<open>Some (Inr tokens)\<close> the result.
\<close>

partial_function (option) tokenize_quoted_loop ::
  "string \<Rightarrow> string \<Rightarrow> string list \<Rightarrow> (error + string list) option" where
  "tokenize_quoted_loop remaining delimiters tokens =
     (if remaining \<noteq> [] then
        (case extract_token_quoted remaining delimiters of
           Inl e \<Rightarrow> Some (Inl e)
         | Inr (token, remaining') \<Rightarrow>
             tokenize_quoted_loop remaining' delimiters
               (case token of Some t \<Rightarrow> tokens @ [t] | None \<Rightarrow> tokens))
      else Some (Inr tokens))"

declare tokenize_quoted_loop.simps [code]

definition tokenize_quoted :: "string \<Rightarrow> string \<Rightarrow> (error + string list) option" where
  "tokenize_quoted str delimiters = tokenize_quoted_loop str delimiters []"

subsection \<open>\<^verbatim>\<open>tokenize\<close>\<close>

partial_function (option) tokenize_loop ::
  "string \<Rightarrow> string \<Rightarrow> nat \<Rightarrow> nat \<Rightarrow> string list \<Rightarrow> (error + string list) option" where
  "tokenize_loop str delimiters last_pos pos tokens =
     (if npos \<noteq> pos \<or> npos \<noteq> last_pos then
        (case substr str last_pos (sz_sub pos last_pos) of
           Inl e \<Rightarrow> Some (Inl e)
         | Inr t \<Rightarrow>
             (let last_pos' = find_first_not_of str delimiters pos;
                  pos' = find_first_of str delimiters last_pos'
              in tokenize_loop str delimiters last_pos' pos' (tokens @ [t])))
      else Some (Inr tokens))"

declare tokenize_loop.simps [code]

definition tokenize :: "string \<Rightarrow> string \<Rightarrow> (error + string list) option" where
  "tokenize str delimiters =
     (let last_pos = find_first_not_of str delimiters 0;
          pos = find_first_of str delimiters last_pos
      in tokenize_loop str delimiters last_pos pos [])"

subsection \<open>\<^verbatim>\<open>tokenize_spaced\<close>\<close>

partial_function (option) tokenize_spaced_loop ::
  "string \<Rightarrow> string \<Rightarrow> nat \<Rightarrow> nat \<Rightarrow> string list \<Rightarrow> (error + string list) option" where
  "tokenize_spaced_loop str delimiters last_pos pos tokens =
     (if npos \<noteq> pos \<or> npos \<noteq> last_pos then
        (case substr str last_pos (sz_sub pos last_pos) of
           Inl e \<Rightarrow> Some (Inl e)
         | Inr t \<Rightarrow>
             (let last_pos' = find_first_not_of str delimiters pos
              in if last_pos' > pos then
                   (case substr str pos (sz_sub last_pos' pos) of
                      Inl e \<Rightarrow> Some (Inl e)
                    | Inr t' \<Rightarrow>
                        tokenize_spaced_loop str delimiters last_pos'
                          (find_first_of str delimiters last_pos') (tokens @ [t] @ [t']))
                 else
                   tokenize_spaced_loop str delimiters last_pos'
                     (find_first_of str delimiters last_pos') (tokens @ [t])))
      else Some (Inr tokens))"

declare tokenize_spaced_loop.simps [code]

definition tokenize_spaced :: "string \<Rightarrow> string \<Rightarrow> (error + string list) option" where
  "tokenize_spaced str delimiters =
     (let last_pos = find_first_not_of str delimiters 0;
          pos = find_first_of str delimiters last_pos
      in if last_pos \<noteq> 0 then
           (case substr str 0 last_pos of
              Inl e \<Rightarrow> Some (Inl e)
            | Inr t \<Rightarrow> tokenize_spaced_loop str delimiters last_pos pos [t])
         else tokenize_spaced_loop str delimiters last_pos pos [])"

subsection \<open>\<^verbatim>\<open>tokenize_nl\<close>\<close>

text \<open>
  The three \<^verbatim>\<open>for\<close> loops of \<^verbatim>\<open>tokenize_nl\<close> push one \<^verbatim>\<open>"\n"\<close> per round. Their counter
  is declared \<^verbatim>\<open>unsigned int i\<close>, a 32-bit word that wraps around, and is compared with a
  \<^verbatim>\<open>size_type\<close> bound after the usual conversion. \<open>guard\<close> is the part of the loop
  condition that does not depend on \<open>i\<close> (\<open>True\<close> for the first two loops). A loop whose
  bound is \<open>2^32\<close> or more never ends: \<open>None\<close>. The \<^verbatim>\<open>LOG\<close> calls do not touch the
  result and are left out (the \<^verbatim>\<open>substr\<close> one of them formats is the one just pushed).
\<close>

partial_function (option) push_newlines ::
  "bool \<Rightarrow> 32 word \<Rightarrow> nat \<Rightarrow> string list \<Rightarrow> string list option" where
  "push_newlines guard i n tokens =
     (if guard \<and> unat i < n
      then push_newlines guard (i + 1) n (tokens @ [[line_feed]])
      else Some tokens)"

declare push_newlines.simps [code]

partial_function (option) tokenize_nl_loop ::
  "string \<Rightarrow> string \<Rightarrow> nat \<Rightarrow> nat \<Rightarrow> string list \<Rightarrow> (error + string list) option" where
  "tokenize_nl_loop str delimiters last_pos pos tokens =
     (if npos \<noteq> pos \<or> npos \<noteq> last_pos then
        (case substr str last_pos (sz_sub pos last_pos) of
           Inl e \<Rightarrow> Some (Inl e)
         | Inr t \<Rightarrow>
             (let last_pos' = find_first_not_of str delimiters pos
              in case push_newlines (last_pos' \<noteq> npos \<and> pos \<noteq> npos) 0
                        (sz_sub last_pos' pos) (tokens @ [t]) of
                   None \<Rightarrow> None
                 | Some tokens' \<Rightarrow>
                     tokenize_nl_loop str delimiters last_pos'
                       (find_first_of str delimiters last_pos') tokens'))
      else Some (Inr tokens))"

declare tokenize_nl_loop.simps [code]

definition tokenize_nl :: "string \<Rightarrow> string \<Rightarrow> (error + string list) option" where
  "tokenize_nl str delimiters =
     (let last_pos = find_first_not_of str delimiters 0;
          pos = find_first_of str delimiters last_pos
      in case (if last_pos \<noteq> npos then push_newlines True 0 last_pos []
               else push_newlines True 0 (length str) []) of
           None \<Rightarrow> None
         | Some tokens \<Rightarrow> tokenize_nl_loop str delimiters last_pos pos tokens)"

section \<open>Notions of the specification\<close>

text \<open>
  The specification speaks of the cursor "after skipping leading delimiter characters"
  and says that no token is produced when that cursor is exhausted or starts with the
  comment marker.
\<close>

fun no_token_input :: "string \<Rightarrow> string \<Rightarrow> bool" where
  "no_token_input d s =
     (case dropWhile (\<lambda>c. c \<in> set d) s of [] \<Rightarrow> True | c # _ \<Rightarrow> c = hash)"

text \<open>
  The text after an opening quote has no closing quote when it holds no double quote
  outside an escape (a backslash consumes the character after it, if any).
\<close>

fun unterminated :: "string \<Rightarrow> bool" where
  "unterminated [] = True"
| "unterminated [c] = (c \<noteq> dquote)"
| "unterminated (c # e # cs) =
     (if c = dquote then False
      else if c = backslash then unterminated cs
      else unterminated (e # cs))"

text \<open>
  "With escapes resolved": a backslash and the character after it are replaced by that
  character's expansion, a backslash with nothing after it is dropped, every other
  character is copied.
\<close>

fun resolve_escapes :: "string \<Rightarrow> string" where
  "resolve_escapes [] = []"
| "resolve_escapes [c] = (if c = backslash then [] else [c])"
| "resolve_escapes (c # e # cs) =
     (if c = backslash then append_escapes [] e @ resolve_escapes cs
      else c # resolve_escapes (e # cs))"

text \<open>
  "Splits on maximal runs of delimiter characters": skip the longest run of delimiter
  characters, take the longest run of other characters as a token, and go on after it.
\<close>

function split_runs :: "string \<Rightarrow> string \<Rightarrow> string list" where
  "split_runs s d =
     (case dropWhile (\<lambda>c. c \<in> set d) s of
        [] \<Rightarrow> []
      | c # r \<Rightarrow>
          takeWhile (\<lambda>c. c \<notin> set d) (c # r)
            # split_runs (dropWhile (\<lambda>c. c \<notin> set d) r) d)"
  by pat_completeness auto
termination
proof (relation "measure (\<lambda>(s, d). length s)")
  show "wf (measure (\<lambda>(s, d). length s))" by simp
next
  fix s d :: string and c r
  assume "dropWhile (\<lambda>c. c \<in> set d) s = c # r"
  then have "length (c # r) \<le> length s" by (metis length_dropWhile_le)
  moreover have "length (dropWhile (\<lambda>c. c \<notin> set d) r) \<le> length r"
    by (rule length_dropWhile_le)
  ultimately show "((dropWhile (\<lambda>c. c \<notin> set d) r, d), (s, d)) \<in> measure (\<lambda>(s, d). length s)"
    by simp
qed

declare split_runs.simps [simp del]

text \<open>
  Counting for \<^verbatim>\<open>tokenize_nl\<close>: the tokens that are a single newline character, the
  delimiter characters of a string, and the delimiter characters of a string that have
  a non-delimiter character somewhere after them (all but those of a trailing run).
\<close>

definition newline_tokens :: "string list \<Rightarrow> nat" where
  "newline_tokens tokens = length (filter (\<lambda>t. t = [line_feed]) tokens)"

definition delimiter_count :: "string \<Rightarrow> string \<Rightarrow> nat" where
  "delimiter_count s d = length (filter (\<lambda>c. c \<in> set d) s)"

fun inner_delimiters :: "string \<Rightarrow> string \<Rightarrow> nat" where
  "inner_delimiters [] d = 0"
| "inner_delimiters (c # cs) d =
     (if c \<in> set d \<and> \<not> set cs \<subseteq> set d then 1 else 0) + inner_delimiters cs d"

section \<open>Properties\<close>

subsection \<open>Facts about the string primitives\<close>

lemma takeWhile_short: "(length (takeWhile P xs) < length xs) = (\<exists>x\<in>set xs. \<not> P x)"
  by (induction xs) auto

lemma npos_pos: "0 < npos" by (simp add: npos_def)

lemma sz_sub_le:
  assumes "b \<le> a" and "a < size_modulus"
  shows "sz_sub a b = a - b"
proof -
  from assms(1) have "a + size_modulus - b = (a - b) + size_modulus" by simp
  then have "sz_sub a b = (a - b) mod size_modulus" by (simp add: sz_sub_def)
  with assms(2) show ?thesis by simp
qed

lemma npos_lt_modulus: "npos < size_modulus"
  by (simp add: npos_def size_modulus_def)

lemma find_first_of_drop:
  assumes "length s < npos"
  shows "drop (find_first_of s d p) s = dropWhile (\<lambda>c. c \<notin> set d) (drop p s)"
proof (cases "length (takeWhile (\<lambda>c. c \<notin> set d) (drop p s)) < length (drop p s)")
  case True
  then show ?thesis
    by (simp add: find_first_of_def dropWhile_eq_drop add.commute)
next
  case False
  then have "\<forall>x\<in>set (drop p s). x \<notin> set d"
    using takeWhile_short[of "\<lambda>c. c \<notin> set d" "drop p s"] by blast
  then have a: "dropWhile (\<lambda>c. c \<notin> set d) (drop p s) = []" by simp
  have b: "drop (find_first_of s d p) s = []"
    using False assms by (simp add: find_first_of_def)
  show ?thesis by (simp only: a b)
qed

lemma find_first_not_of_drop:
  assumes "length s < npos"
  shows "drop (find_first_not_of s d p) s = dropWhile (\<lambda>c. c \<in> set d) (drop p s)"
proof (cases "length (takeWhile (\<lambda>c. c \<in> set d) (drop p s)) < length (drop p s)")
  case True
  then show ?thesis
    by (simp add: find_first_not_of_def dropWhile_eq_drop add.commute)
next
  case False
  then have "\<forall>x\<in>set (drop p s). x \<in> set d"
    using takeWhile_short[of "\<lambda>c. c \<in> set d" "drop p s"] by blast
  then have a: "dropWhile (\<lambda>c. c \<in> set d) (drop p s) = []" by simp
  have b: "drop (find_first_not_of s d p) s = []"
    using False assms by (simp add: find_first_not_of_def)
  show ?thesis by (simp only: a b)
qed

lemma find_first_not_of_npos_iff:
  assumes "length s < npos"
  shows "find_first_not_of s d p = npos \<longleftrightarrow> dropWhile (\<lambda>c. c \<in> set d) (drop p s) = []"
proof -
  have "find_first_not_of s d p = npos \<longleftrightarrow> length s \<le> find_first_not_of s d p"
    using assms by (auto simp: find_first_not_of_def Let_def)
  also have "\<dots> \<longleftrightarrow> drop (find_first_not_of s d p) s = []" by simp
  finally show ?thesis by (simp only: find_first_not_of_drop[OF assms])
qed

lemma find_first_of_npos_iff:
  assumes "length s < npos"
  shows "find_first_of s d p = npos \<longleftrightarrow> dropWhile (\<lambda>c. c \<notin> set d) (drop p s) = []"
proof -
  have "find_first_of s d p = npos \<longleftrightarrow> length s \<le> find_first_of s d p"
    using assms by (auto simp: find_first_of_def Let_def)
  also have "\<dots> \<longleftrightarrow> drop (find_first_of s d p) s = []" by simp
  finally show ?thesis by (simp only: find_first_of_drop[OF assms])
qed

lemma find_first_of_past_end: "length s \<le> p \<Longrightarrow> find_first_of s d p = npos"
  by (simp add: find_first_of_def)

lemma find_first_not_of_past_end: "length s \<le> p \<Longrightarrow> find_first_not_of s d p = npos"
  by (simp add: find_first_not_of_def)

lemma token_at:
  assumes "length s < npos" and "lp \<le> length s"
  shows "substr s lp (sz_sub (find_first_of s d lp) lp)
           = Inr (takeWhile (\<lambda>c. c \<notin> set d) (drop lp s))"
proof (cases "length (takeWhile (\<lambda>c. c \<notin> set d) (drop lp s)) < length (drop lp s)")
  case True
  let ?m = "length (takeWhile (\<lambda>c. c \<notin> set d) (drop lp s))"
  from True have f: "find_first_of s d lp = lp + ?m" by (simp add: find_first_of_def)
  from True assms npos_lt_modulus have "lp + ?m < size_modulus" by simp
  then have "sz_sub (lp + ?m) lp = ?m" by (simp add: sz_sub_le)
  moreover have "take ?m (drop lp s) = takeWhile (\<lambda>c. c \<notin> set d) (drop lp s)"
    by (rule takeWhile_eq_take[symmetric])
  ultimately show ?thesis using assms(2) by (simp add: f substr_def)
next
  case False
  then have f: "find_first_of s d lp = npos" by (simp add: find_first_of_def)
  from False have "\<forall>x\<in>set (drop lp s). x \<notin> set d"
    using takeWhile_short[of "\<lambda>c. c \<notin> set d" "drop lp s"] by blast
  then have tw: "takeWhile (\<lambda>c. c \<notin> set d) (drop lp s) = drop lp s" by simp
  from assms npos_lt_modulus have "sz_sub npos lp = npos - lp" by (simp add: sz_sub_le)
  moreover from assms have "length (drop lp s) \<le> npos - lp" by simp
  ultimately show ?thesis using assms(2) by (simp add: f substr_def tw)
qed

lemma dropWhile_Cons_head: "dropWhile P xs = c # r \<Longrightarrow> \<not> P c"
  by (induction xs) (auto split: if_splits)

subsection \<open>The quoted extractor makes progress\<close>

lemma scan_quoted_end:
  "\<not> pos < length str \<Longrightarrow> scan_quoted str pos token = (token, pos)"
  by (subst scan_quoted.simps) simp

lemma scan_quoted_quote:
  "pos < length str \<Longrightarrow> str ! pos = dquote \<Longrightarrow> scan_quoted str pos token = (token, pos + 1)"
  by (subst scan_quoted.simps) (simp add: str_at_def)

lemma scan_quoted_escape:
  "pos + 1 < length str \<Longrightarrow> str ! pos = backslash \<Longrightarrow>
   scan_quoted str pos token =
     scan_quoted str (pos + 2) (append_escapes token (str ! (pos + 1)))"
  by (subst scan_quoted.simps) (simp add: str_at_def Let_def)

lemma scan_quoted_dangling:
  "pos < length str \<Longrightarrow> \<not> pos + 1 < length str \<Longrightarrow> str ! pos = backslash \<Longrightarrow>
   scan_quoted str pos token = scan_quoted str (pos + 1) token"
  by (subst scan_quoted.simps) (simp add: str_at_def Let_def)

lemma scan_quoted_plain:
  "pos < length str \<Longrightarrow> str ! pos \<noteq> dquote \<Longrightarrow> str ! pos \<noteq> backslash \<Longrightarrow>
   scan_quoted str pos token = scan_quoted str (pos + 1) (token @ [str ! pos])"
  by (subst scan_quoted.simps) (simp add: str_at_def)

lemma scan_quoted_range:
  "pos \<le> length str \<Longrightarrow>
   pos \<le> snd (scan_quoted str pos token) \<and> snd (scan_quoted str pos token) \<le> length str"
proof (induction "length str - pos" arbitrary: pos token rule: less_induct)
  case less
  show ?case
  proof (cases "pos < length str")
    case False
    with less.prems show ?thesis by (simp add: scan_quoted_end)
  next
    case inside: True
    consider (q) "str ! pos = dquote"
      | (e) "str ! pos = backslash" "pos + 1 < length str"
      | (d) "str ! pos = backslash" "\<not> pos + 1 < length str"
      | (p) "str ! pos \<noteq> dquote" "str ! pos \<noteq> backslash"
      by blast
    then show ?thesis
    proof cases
      case q
      with inside show ?thesis by (simp add: scan_quoted_quote)
    next
      case e
      have "pos + 2 \<le> snd (scan_quoted str (pos + 2) (append_escapes token (str ! (pos + 1))))
          \<and> snd (scan_quoted str (pos + 2) (append_escapes token (str ! (pos + 1)))) \<le> length str"
        using e inside by (intro less.hyps) auto
      with e show ?thesis by (simp add: scan_quoted_escape)
    next
      case d
      have "pos + 1 \<le> snd (scan_quoted str (pos + 1) token)
          \<and> snd (scan_quoted str (pos + 1) token) \<le> length str"
        using d inside by (intro less.hyps) auto
      with d inside show ?thesis by (simp add: scan_quoted_dangling)
    next
      case p
      have "pos + 1 \<le> snd (scan_quoted str (pos + 1) (token @ [str ! pos]))
          \<and> snd (scan_quoted str (pos + 1) (token @ [str ! pos])) \<le> length str"
        using inside by (intro less.hyps) auto
      with p inside show ?thesis by (simp add: scan_quoted_plain)
    qed
  qed
qed

lemma find_first_not_of_cases:
  "find_first_not_of s d 0 = npos \<or>
   (find_first_not_of s d 0 < length s \<and> s ! find_first_not_of s d 0 \<notin> set d)"
proof (cases "length (takeWhile (\<lambda>c. c \<in> set d) s) < length s")
  case True
  then have "s ! length (takeWhile (\<lambda>c. c \<in> set d) s) \<notin> set d"
    by (rule nth_length_takeWhile)
  with True show ?thesis by (simp add: find_first_not_of_def)
next
  case False
  then show ?thesis by (simp add: find_first_not_of_def)
qed

lemma find_first_of_0_cases:
  "s \<noteq> [] \<Longrightarrow> hd s \<notin> set d \<Longrightarrow>
   find_first_of s d 0 = npos \<or> (0 < find_first_of s d 0 \<and> find_first_of s d 0 < length s)"
  by (cases s) (auto simp: find_first_of_def)

lemma extract_token_quoted_shrinks:
  assumes "s \<noteq> []"
  shows "\<exists>tok rest. extract_token_quoted s d = Inr (tok, rest) \<and> length rest < length s"
proof -
  let ?f = "find_first_not_of s d 0"
  from find_first_not_of_cases[of s d] show ?thesis
  proof
    assume "?f = npos"
    with assms show ?thesis by (simp add: extract_token_quoted_def)
  next
    assume f: "?f < length s \<and> s ! ?f \<notin> set d"
    define str1 where "str1 = take npos (drop ?f s)"
    from f have sub: "substr s ?f npos = Inr str1"
      by (simp add: substr_def str1_def)
    from f npos_pos have ne: "str1 \<noteq> []" by (simp add: str1_def)
    have len: "length str1 \<le> length s" by (simp add: str1_def)
    from f npos_pos have hd: "hd str1 \<notin> set d"
      by (simp add: str1_def hd_conv_nth hd_drop_conv_nth)
    show ?thesis
    proof (cases "?f = npos")
      case True
      with assms show ?thesis by (simp add: extract_token_quoted_def)
    next
      case fn: False
      show ?thesis
      proof (cases "str_at str1 0 = hash")
        case True
        with fn sub assms show ?thesis by (simp add: extract_token_quoted_def)
      next
        case nh: False
        show ?thesis
        proof (cases "str_at str1 0 = dquote")
          case True
          obtain token pos where sc: "scan_quoted str1 1 [] = (token, pos)"
            by (cases "scan_quoted str1 1 []")
          from ne have "1 \<le> length str1" by (cases str1) auto
          from scan_quoted_range[OF this, of "[]"] sc
          have "1 \<le> pos \<and> pos \<le> length str1" by simp
          with fn sub nh True sc len show ?thesis
            by (auto simp: extract_token_quoted_def substr_def)
        next
          case nd: False
          let ?e = "find_first_of str1 d 0"
          from find_first_of_0_cases[OF ne hd]
          have "?e = npos \<or> (0 < ?e \<and> ?e < length str1)" .
          with fn sub nh nd len assms show ?thesis
            by (auto simp: extract_token_quoted_def substr_def Let_def)
        qed
      qed
    qed
  qed
qed

lemma tokenize_quoted_loop_nil: "tokenize_quoted_loop [] d tokens = Some (Inr tokens)"
  by (simp add: tokenize_quoted_loop.simps)

lemma tokenize_quoted_loop_step:
  "s \<noteq> [] \<Longrightarrow> extract_token_quoted s d = Inr (tok, rest) \<Longrightarrow>
   tokenize_quoted_loop s d tokens =
     tokenize_quoted_loop rest d (case tok of Some t \<Rightarrow> tokens @ [t] | None \<Rightarrow> tokens)"
  by (subst tokenize_quoted_loop.simps) simp

lemma tokenize_quoted_loop_returns:
  "\<exists>more. tokenize_quoted_loop s d tokens = Some (Inr (tokens @ more))"
proof (induction "length s" arbitrary: s tokens rule: less_induct)
  case less
  show ?case
  proof (cases "s = []")
    case True
    then show ?thesis by (simp add: tokenize_quoted_loop_nil)
  next
    case False
    from extract_token_quoted_shrinks[OF False, of d]
    obtain tok rest where e: "extract_token_quoted s d = Inr (tok, rest)"
      and l: "length rest < length s" by blast
    from less[OF l, of "case tok of Some t \<Rightarrow> tokens @ [t] | None \<Rightarrow> tokens"]
    show ?thesis
      by (cases tok) (auto simp: tokenize_quoted_loop_step[OF False e])
  qed
qed

text \<open>
  C3. Called on a non-empty cursor, \<^verbatim>\<open>extract_token_quoted\<close> returns (no exception) and
  leaves a strictly shorter cursor; and the loop of \<^verbatim>\<open>tokenize_quoted\<close> returns a
  token sequence for every input line and delimiter set.
\<close>

theorem extract_token_quoted_progress:
  "(s \<noteq> [] \<longrightarrow>
      (\<exists>tok rest. extract_token_quoted s d = Inr (tok, rest) \<and> length rest < length s))
   \<and> (\<exists>tokens. tokenize_quoted s d = Some (Inr tokens))"
  using extract_token_quoted_shrinks[of s d] tokenize_quoted_loop_returns[of s d "[]"]
  by (simp add: tokenize_quoted_def)

theorem extract_token_quoted_progress_witness:
  "''a b'' \<noteq> []
   \<and> (\<exists>tok rest. extract_token_quoted ''a b'' '' '' = Inr (tok, rest)
         \<and> length rest < length ''a b'')
   \<and> (\<exists>tokens. tokenize_quoted ''a b'' '' '' = Some (Inr tokens))"
  using extract_token_quoted_progress[of "''a b''" "'' ''"] by simp

subsection \<open>When the extractor yields no token\<close>

lemma skip_none:
  "dropWhile (\<lambda>c. c \<in> set d) s = [] \<Longrightarrow> find_first_not_of s d 0 = npos"
  by (simp add: find_first_not_of_def takeWhile_short)

lemma skip_some:
  assumes "length s < npos" and "dropWhile (\<lambda>c. c \<in> set d) s = c # r"
  shows "find_first_not_of s d 0 \<noteq> npos"
    and "substr s (find_first_not_of s d 0) npos = Inr (c # r)"
proof -
  let ?k = "length (takeWhile (\<lambda>c. c \<in> set d) s)"
  from assms(2) have "\<exists>x\<in>set s. x \<notin> set d"
    by (metis dropWhile_eq_Nil_conv list.distinct(1))
  then have k: "?k < length s" by (simp add: takeWhile_short)
  then have f: "find_first_not_of s d 0 = ?k" by (simp add: find_first_not_of_def)
  with k assms(1) show "find_first_not_of s d 0 \<noteq> npos" by simp
  have "drop ?k s = c # r" using assms(2) by (simp add: dropWhile_eq_drop)
  moreover have "length (c # r) \<le> npos"
    using assms by (metis length_dropWhile_le le_less_trans less_imp_le)
  ultimately show "substr s (find_first_not_of s d 0) npos = Inr (c # r)"
    using f k by (simp add: substr_def)
qed

lemma extract_exhausted:
  "dropWhile (\<lambda>c. c \<in> set d) s = [] \<Longrightarrow> extract_token_quoted s d = Inr (None, [])"
  by (simp add: extract_token_quoted_def skip_none)

lemma extract_comment:
  assumes "length s < npos" and "dropWhile (\<lambda>c. c \<in> set d) s = hash # r"
  shows "extract_token_quoted s d = Inr (None, [])"
  using skip_some[OF assms] by (simp add: extract_token_quoted_def str_at_def)

lemma extract_quoted:
  assumes "length s < npos" and "dropWhile (\<lambda>c. c \<in> set d) s = dquote # r"
    and "scan_quoted (dquote # r) 1 [] = (token, pos)"
  shows "extract_token_quoted s d = Inr (Some token, drop pos (dquote # r))"
proof -
  have "length (dquote # r) \<le> length s"
    using assms(2) by (metis length_dropWhile_le)
  with assms(1) have l: "length (dquote # r) < npos" by simp
  from scan_quoted_range[of 1 "dquote # r" "[]"] assms(3)
  have "pos \<le> length (dquote # r)" by simp
  then have "substr (dquote # r) pos npos = Inr (drop pos (dquote # r))"
    using l by (simp add: substr_def)
  with assms skip_some[OF assms(1,2)] show ?thesis
    by (simp add: extract_token_quoted_def str_at_def)
qed

lemma unquoted_split:
  assumes "length w < npos"
  shows "(let end_of_token = find_first_of w d 0
       in case substr w 0 end_of_token of
            Inl e \<Rightarrow> Inl e
          | Inr token \<Rightarrow>
              if end_of_token = npos then Inr (Some token, [])
              else (case substr w end_of_token npos of
                      Inl e \<Rightarrow> Inl e
                    | Inr str2 \<Rightarrow> Inr (Some token, str2)))
      = (Inr (Some (takeWhile (\<lambda>c. c \<notin> set d) w), dropWhile (\<lambda>c. c \<notin> set d) w)
          :: error + (string option \<times> string))"
proof -
  let ?k = "length (takeWhile (\<lambda>c. c \<notin> set d) w)"
  show ?thesis
  proof (cases "?k < length w")
    case True
    then have e: "find_first_of w d 0 = ?k" by (simp add: find_first_of_def)
    have "?k \<noteq> npos" using True assms by simp
    moreover have "take ?k w = takeWhile (\<lambda>c. c \<notin> set d) w"
      by (rule takeWhile_eq_take[symmetric])
    moreover have "take npos (drop ?k w) = dropWhile (\<lambda>c. c \<notin> set d) w"
      using assms by (simp add: dropWhile_eq_drop)
    ultimately show ?thesis
      using True by (simp only: e Let_def substr_def) simp
  next
    case False
    then have e: "find_first_of w d 0 = npos" by (simp add: find_first_of_def)
    from False have all: "\<forall>x\<in>set w. x \<notin> set d"
      using takeWhile_short[of "\<lambda>c. c \<notin> set d" w] by blast
    then have "takeWhile (\<lambda>c. c \<notin> set d) w = w" "dropWhile (\<lambda>c. c \<notin> set d) w = []"
      by simp_all
    moreover have "take npos w = w" using assms by simp
    ultimately show ?thesis
      by (simp only: e Let_def substr_def) simp
  qed
qed

lemma extract_unquoted:
  assumes "length s < npos" and "dropWhile (\<lambda>c. c \<in> set d) s = c # r"
    and "c \<noteq> hash" and "c \<noteq> dquote"
  shows "extract_token_quoted s d =
           Inr (Some (takeWhile (\<lambda>c. c \<notin> set d) (c # r)),
                dropWhile (\<lambda>c. c \<notin> set d) (c # r))"
proof -
  have "length (c # r) \<le> length s"
    using assms(2) by (metis length_dropWhile_le)
  with assms(1) have l: "length (c # r) < npos" by simp
  have "extract_token_quoted s d =
      (let end_of_token = find_first_of (c # r) d 0
       in case substr (c # r) 0 end_of_token of
            Inl e \<Rightarrow> Inl e
          | Inr token \<Rightarrow>
              if end_of_token = npos then Inr (Some token, [])
              else (case substr (c # r) end_of_token npos of
                      Inl e \<Rightarrow> Inl e
                    | Inr str2 \<Rightarrow> Inr (Some token, str2)))"
    using assms skip_some[OF assms(1,2)] by (simp add: extract_token_quoted_def str_at_def)
  also note unquoted_split[OF l]
  finally show ?thesis .
qed

lemma extract_none_iff:
  assumes "length s < npos"
  shows "\<exists>tok rest. extract_token_quoted s d = Inr (tok, rest)
           \<and> (tok = None \<longleftrightarrow> no_token_input d s) \<and> (tok = None \<longrightarrow> rest = [])"
proof (cases "dropWhile (\<lambda>c. c \<in> set d) s")
  case Nil
  from extract_exhausted[OF Nil] show ?thesis by (simp only: no_token_input.simps Nil) simp
next
  case (Cons c r)
  consider (h) "c = hash" | (q) "c = dquote" | (u) "c \<noteq> hash" "c \<noteq> dquote" by blast
  then show ?thesis
  proof cases
    case h
    with Cons assms show ?thesis by (simp add: extract_comment)
  next
    case q
    obtain token pos where "scan_quoted (dquote # r) 1 [] = (token, pos)"
      by (cases "scan_quoted (dquote # r) 1 []")
    with q Cons assms show ?thesis by (simp add: extract_quoted)
  next
    case u
    with Cons assms show ?thesis by (simp add: extract_unquoted del: takeWhile.simps dropWhile.simps)
  qed
qed

lemma tokenize_quoted_delims_only:
  "set s \<subseteq> set d \<Longrightarrow> tokenize_quoted s d = Some (Inr [])"
proof (cases "s = []")
  case True
  then show ?thesis by (simp add: tokenize_quoted_def tokenize_quoted_loop_nil)
next
  case False
  assume "set s \<subseteq> set d"
  then have "dropWhile (\<lambda>c. c \<in> set d) s = []" by auto
  then have "extract_token_quoted s d = Inr (None, [])" by (rule extract_exhausted)
  from tokenize_quoted_loop_step[OF False this] show ?thesis
    by (simp add: tokenize_quoted_def tokenize_quoted_loop_nil)
qed

lemma tokenize_quoted_comment:
  assumes "hash \<notin> set d"
  shows "tokenize_quoted (hash # s) d = Some (Inr [])"
proof -
  have "find_first_not_of (hash # s) d 0 = 0"
    using assms by (simp add: find_first_not_of_def)
  then have "extract_token_quoted (hash # s) d = Inr (None, [])"
    using npos_pos by (simp add: extract_token_quoted_def substr_def str_at_def take_Cons split: nat.split)
  from tokenize_quoted_loop_step[OF _ this] show ?thesis
    by (simp add: tokenize_quoted_def tokenize_quoted_loop_nil)
qed

text \<open>
  C4 (as amended). \<^verbatim>\<open>extract_token_quoted\<close> returns no token exactly when, after
  skipping leading delimiter characters, the cursor is exhausted or its first remaining
  character is \<open>#\<close>; the cursor is then empty. So \<^verbatim>\<open>tokenize_quoted\<close> returns the empty
  sequence for the empty line, for a line of delimiter characters only, and for a line
  beginning with \<open>#\<close> provided \<open>#\<close> is not itself a delimiter character.
\<close>

theorem extract_token_quoted_no_token:
  "length s < npos \<Longrightarrow>
   (\<exists>tok rest. extract_token_quoted s d = Inr (tok, rest)
           \<and> (tok = None \<longleftrightarrow> no_token_input d s) \<and> (tok = None \<longrightarrow> rest = []))
   \<and> tokenize_quoted [] d = Some (Inr [])
   \<and> (set s \<subseteq> set d \<longrightarrow> tokenize_quoted s d = Some (Inr []))
   \<and> (hash \<notin> set d \<longrightarrow> tokenize_quoted (hash # s) d = Some (Inr []))"
  using extract_none_iff[of s d] tokenize_quoted_delims_only[of s d]
    tokenize_quoted_delims_only[of "[]" d] tokenize_quoted_comment[of d s]
  by simp

theorem extract_token_quoted_no_token_witness:
  "length ''   '' < npos
   \<and> no_token_input '' '' ''   ''
   \<and> extract_token_quoted ''   '' '' '' = Inr (None, [])
   \<and> tokenize_quoted [] '' '' = Some (Inr [])
   \<and> set ''   '' \<subseteq> set '' '' \<and> tokenize_quoted ''   '' '' '' = Some (Inr [])
   \<and> hash \<notin> set '' '' \<and> tokenize_quoted ''#   '' '' '' = Some (Inr [])"
  using extract_token_quoted_no_token[of "''   ''" "'' ''"] by (simp add: npos_def)

text \<open>
  The claim as written, for every delimiter set, fails when \<open>#\<close> is a delimiter
  character: the leading \<open>#\<close> is skipped as a delimiter and a token follows.
\<close>

theorem tokenize_quoted_hash_delimiter:
  "tokenize_quoted ''#abc'' ''#'' = Some (Inr [''abc''])
   \<and> tokenize_quoted ''#abc'' ''#'' \<noteq> Some (Inr [])"
  by (simp add: tokenize_quoted_def tokenize_quoted_loop.simps extract_token_quoted_def
      find_first_not_of_def find_first_of_def substr_def str_at_def npos_def Let_def)

subsection \<open>Quoted tokens: missing closing quote, empty token\<close>

lemma append_escapes_acc: "append_escapes tok e = tok @ append_escapes [] e"
  by (simp add: append_escapes_def)

lemma drop_ConsD:
  "drop n xs = x # xs' \<Longrightarrow> n < length xs \<and> xs ! n = x \<and> drop (Suc n) xs = xs'"
  by (induction xs arbitrary: n) (auto simp: drop_Cons split: nat.splits)

lemma scan_unterminated:
  "drop pos str = body \<Longrightarrow> pos \<le> length str \<Longrightarrow> unterminated body \<Longrightarrow>
   scan_quoted str pos tok = (tok @ resolve_escapes body, length str)"
proof (induction body arbitrary: pos tok rule: unterminated.induct)
  case 1
  then have "pos = length str" by simp
  then show ?case by (simp add: scan_quoted_end)
next
  case (2 c)
  from drop_ConsD[OF "2.prems"(1)]
  have p: "pos < length str" "str ! pos = c" "drop (Suc pos) str = []" by simp_all
  then have l: "\<not> pos + 1 < length str" by simp
  from "2.prems"(3) have nq: "c \<noteq> dquote" by simp
  show ?case
  proof (cases "c = backslash")
    case True
    with p l show ?thesis by (simp add: scan_quoted_dangling scan_quoted_end)
  next
    case False
    with p l nq show ?thesis by (simp add: scan_quoted_plain scan_quoted_end)
  qed
next
  case (3 c e cs)
  from drop_ConsD[OF "3.prems"(1)]
  have p: "pos < length str" "str ! pos = c" "drop (Suc pos) str = e # cs" by simp_all
  from drop_ConsD[OF p(3)]
  have q: "Suc pos < length str" "str ! Suc pos = e" "drop (Suc (Suc pos)) str = cs"
    by simp_all
  from "3.prems"(3) have nq: "c \<noteq> dquote" by (simp split: if_splits)
  show ?case
  proof (cases "c = backslash")
    case True
    with "3.prems"(3) have u: "unterminated cs" by simp
    have "scan_quoted str (pos + 2) (append_escapes tok e)
            = (append_escapes tok e @ resolve_escapes cs, length str)"
      using q u nq True by (intro "3.IH"(1)) simp_all
    with p q True show ?thesis
      by (simp add: scan_quoted_escape append_escapes_acc[of tok e])
  next
    case False
    with "3.prems"(3) nq have u: "unterminated (e # cs)" by simp
    have "scan_quoted str (pos + 1) (tok @ [c])
            = ((tok @ [c]) @ resolve_escapes (e # cs), length str)"
      using p q u nq False by (intro "3.IH"(2)) simp_all
    with p nq False show ?thesis by (simp add: scan_quoted_plain)
  qed
qed

lemma dropWhile_Cons_nonempty: "dropWhile P s = c # r \<Longrightarrow> s \<noteq> []"
  by auto

text \<open>
  C6. When the first non-delimiter character is a double quote and the text after it has
  no closing quote, \<^verbatim>\<open>extract_token_quoted\<close> raises no error, the token is that text
  with escapes resolved, and the cursor becomes empty; \<^verbatim>\<open>tokenize_quoted\<close> returns that
  one token. In particular \<^verbatim>\<open>tokenize_quoted("\"abc", " ")\<close> is \<^verbatim>\<open>["abc"]\<close>.
\<close>

theorem unterminated_quote_tolerated:
  assumes "length s < npos" and "dropWhile (\<lambda>c. c \<in> set d) s = dquote # body"
    and "unterminated body"
  shows "extract_token_quoted s d = Inr (Some (resolve_escapes body), [])
       \<and> tokenize_quoted s d = Some (Inr [resolve_escapes body])
       \<and> tokenize_quoted [dquote, CHR ''a'', CHR ''b'', CHR ''c''] '' '' = Some (Inr [''abc''])"
proof -
  have "scan_quoted (dquote # body) 1 [] = ([] @ resolve_escapes body, length (dquote # body))"
    using assms(3) by (intro scan_unterminated) simp_all
  then have sc: "scan_quoted (dquote # body) 1 [] = (resolve_escapes body, length (dquote # body))"
    by simp
  from extract_quoted[OF assms(1,2) sc]
  have e: "extract_token_quoted s d = Inr (Some (resolve_escapes body), [])" by simp
  from assms(2) have "s \<noteq> []" by (rule dropWhile_Cons_nonempty)
  from tokenize_quoted_loop_step[OF this e, of "[]"]
  have t: "tokenize_quoted s d = Some (Inr [resolve_escapes body])"
    by (simp add: tokenize_quoted_def tokenize_quoted_loop_nil)
  have "tokenize_quoted [dquote, CHR ''a'', CHR ''b'', CHR ''c''] '' '' = Some (Inr [''abc''])"
    by (simp add: tokenize_quoted_def tokenize_quoted_loop.simps extract_token_quoted_def
        find_first_not_of_def find_first_of_def substr_def str_at_def npos_def
        scan_quoted.simps Let_def)
  with e t show ?thesis by simp
qed

theorem unterminated_quote_tolerated_witness:
  "length [dquote, CHR ''a'', backslash, CHR ''n'', CHR ''b'', backslash] < npos
   \<and> dropWhile (\<lambda>c. c \<in> set '' '') [dquote, CHR ''a'', backslash, CHR ''n'', CHR ''b'', backslash]
       = dquote # [CHR ''a'', backslash, CHR ''n'', CHR ''b'', backslash]
   \<and> unterminated [CHR ''a'', backslash, CHR ''n'', CHR ''b'', backslash]
   \<and> extract_token_quoted [dquote, CHR ''a'', backslash, CHR ''n'', CHR ''b'', backslash] '' ''
       = Inr (Some [CHR ''a'', line_feed, CHR ''b''], [])
   \<and> tokenize_quoted [dquote, CHR ''a'', backslash, CHR ''n'', CHR ''b'', backslash] '' ''
       = Some (Inr [[CHR ''a'', line_feed, CHR ''b'']])"
  using unterminated_quote_tolerated[of
      "[dquote, CHR ''a'', backslash, CHR ''n'', CHR ''b'', backslash]" "'' ''"
      "[CHR ''a'', backslash, CHR ''n'', CHR ''b'', backslash]"]
  by (simp add: npos_def append_escapes_def)

text \<open>
  C10. When the first non-delimiter content is two adjacent double quotes,
  \<^verbatim>\<open>extract_token_quoted\<close> returns the empty string as a token (not "no token") and
  \<^verbatim>\<open>tokenize_quoted\<close> has it as its first token. In particular
  \<^verbatim>\<open>tokenize_quoted("\"\"", " ")\<close> is the one-element sequence holding the empty string.
\<close>

theorem empty_quoted_token:
  assumes "length s < npos" and "dropWhile (\<lambda>c. c \<in> set d) s = dquote # dquote # r"
  shows "extract_token_quoted s d = Inr (Some [], r)
       \<and> (\<exists>more. tokenize_quoted s d = Some (Inr ([] # more)))
       \<and> tokenize_quoted [dquote, dquote] '' '' = Some (Inr [[]])"
proof -
  have sc: "scan_quoted (dquote # dquote # r) 1 [] = ([], 2)"
    by (simp add: scan_quoted_quote)
  from extract_quoted[OF assms sc]
  have e: "extract_token_quoted s d = Inr (Some [], r)" by simp
  from assms(2) have "s \<noteq> []" by (rule dropWhile_Cons_nonempty)
  from tokenize_quoted_loop_step[OF this e, of "[]"] tokenize_quoted_loop_returns[of r d "[[]]"]
  have t: "\<exists>more. tokenize_quoted s d = Some (Inr ([] # more))"
    by (auto simp: tokenize_quoted_def)
  have "tokenize_quoted [dquote, dquote] '' '' = Some (Inr [[]])"
    by (simp add: tokenize_quoted_def tokenize_quoted_loop.simps extract_token_quoted_def
        find_first_not_of_def find_first_of_def substr_def str_at_def npos_def
        scan_quoted.simps Let_def)
  with e t show ?thesis by simp
qed

theorem empty_quoted_token_witness:
  "length [CHR '' '', dquote, dquote, CHR '' '', CHR ''x''] < npos
   \<and> dropWhile (\<lambda>c. c \<in> set '' '') [CHR '' '', dquote, dquote, CHR '' '', CHR ''x'']
       = dquote # dquote # '' x''
   \<and> extract_token_quoted [CHR '' '', dquote, dquote, CHR '' '', CHR ''x''] '' ''
       = Inr (Some [], '' x'')
   \<and> (\<exists>more. tokenize_quoted [CHR '' '', dquote, dquote, CHR '' '', CHR ''x''] '' ''
         = Some (Inr ([] # more)))"
  using empty_quoted_token[of "[CHR '' '', dquote, dquote, CHR '' '', CHR ''x'']" "'' ''" "'' x''"]
  by (simp add: npos_def)

subsection \<open>The plain tokenizer\<close>

lemma tokenize_loop_exit: "tokenize_loop s d npos npos tokens = Some (Inr tokens)"
  by (subst tokenize_loop.simps) simp

lemma tokenize_loop_step:
  "lp \<noteq> npos \<Longrightarrow> substr s lp (sz_sub pos lp) = Inr t \<Longrightarrow>
   tokenize_loop s d lp pos tokens =
     tokenize_loop s d (find_first_not_of s d pos)
       (find_first_of s d (find_first_not_of s d pos)) (tokens @ [t])"
  by (subst tokenize_loop.simps) (simp add: Let_def)

lemma tokenize_loop_from:
  assumes "length s < npos"
  shows "tokenize_loop s d (find_first_not_of s d p)
           (find_first_of s d (find_first_not_of s d p)) tokens
         = Some (Inr (tokens @ split_runs (drop p s) d))"
proof (induction "length (drop p s)" arbitrary: p tokens rule: less_induct)
  case less
  let ?lp = "find_first_not_of s d p"
  let ?pos = "find_first_of s d ?lp"
  show ?case
  proof (cases "dropWhile (\<lambda>c. c \<in> set d) (drop p s)")
    case Nil
    then have "?lp = npos" by (simp only: find_first_not_of_npos_iff[OF assms])
    moreover have "find_first_of s d npos = npos"
      using assms by (simp add: find_first_of_past_end)
    moreover have "split_runs (drop p s) d = []"
      by (subst split_runs.simps) (simp only: Nil list.case)
    ultimately show ?thesis by (simp add: tokenize_loop_exit)
  next
    case (Cons c r)
    then have ne: "?lp \<noteq> npos" by (simp only: find_first_not_of_npos_iff[OF assms]) simp
    have w: "drop ?lp s = c # r"
      using Cons by (simp only: find_first_not_of_drop[OF assms])
    from drop_ConsD[OF w] have lp: "?lp \<le> length s" by simp
    have c: "c \<notin> set d"
      using dropWhile_Cons_head[OF Cons] by simp
    have t: "substr s ?lp (sz_sub ?pos ?lp) = Inr (takeWhile (\<lambda>c. c \<notin> set d) (c # r))"
      using token_at[OF assms lp, of d] by (simp only: w)
    have rest: "drop ?pos s = dropWhile (\<lambda>c. c \<notin> set d) r"
      using c by (simp add: find_first_of_drop[OF assms] w)
    have "length (drop ?pos s) \<le> length r"
      by (simp only: rest length_dropWhile_le)
    also have "length r < length (dropWhile (\<lambda>c. c \<in> set d) (drop p s))"
      by (simp only: Cons) simp
    also have "\<dots> \<le> length (drop p s)" by (rule length_dropWhile_le)
    finally have dec: "length (drop ?pos s) < length (drop p s)" .
    have sr: "split_runs (drop p s) d
        = takeWhile (\<lambda>c. c \<notin> set d) (c # r) # split_runs (drop ?pos s) d"
      by (subst split_runs.simps) (simp only: Cons rest list.case)
    show ?thesis
      by (simp only: tokenize_loop_step[OF ne t] less.hyps[OF dec] sr) simp
  qed
qed

lemma tokenize_eq_split_runs:
  "length s < npos \<Longrightarrow> tokenize s d = Some (Inr (split_runs s d))"
  using tokenize_loop_from[of s d 0 "[]"] by (simp add: tokenize_def Let_def)

lemma takeWhile_delimiter_free: "set (takeWhile (\<lambda>c. c \<notin> set d) w) \<inter> set d = {}"
  by (induction w) auto

lemma split_runs_Nil:
  "dropWhile (\<lambda>c. c \<in> set d) s = [] \<Longrightarrow> split_runs s d = []"
  by (subst split_runs.simps) (simp only: list.case)

lemma split_runs_Cons:
  "dropWhile (\<lambda>c. c \<in> set d) s = c # r \<Longrightarrow>
   split_runs s d = takeWhile (\<lambda>c. c \<notin> set d) (c # r)
                      # split_runs (dropWhile (\<lambda>c. c \<notin> set d) r) d"
  by (subst split_runs.simps) (simp only: list.case)

lemma split_runs_tokens:
  "t \<in> set (split_runs s d) \<Longrightarrow> t \<noteq> [] \<and> set t \<inter> set d = {}"
proof (induction s d rule: split_runs.induct)
  case (1 s d)
  show ?case
  proof (cases "dropWhile (\<lambda>c. c \<in> set d) s")
    case Nil
    from "1.prems" show ?thesis by (simp only: split_runs_Nil[OF Nil]) simp
  next
    case (Cons c r)
    from dropWhile_Cons_head[OF Cons] have c: "c \<notin> set d" by simp
    let ?t = "takeWhile (\<lambda>c. c \<notin> set d) (c # r)"
    let ?more = "split_runs (dropWhile (\<lambda>c. c \<notin> set d) r) d"
    from "1.prems" have "t \<in> set (?t # ?more)" by (simp only: split_runs_Cons[OF Cons])
    then have "t = ?t \<or> t \<in> set ?more" by (simp only: set_ConsD list.set insert_iff)
    then show ?thesis
    proof
      assume t: "t = ?t"
      have "?t \<noteq> []" using c by simp
      moreover have "set ?t \<inter> set d = {}" by (rule takeWhile_delimiter_free)
      ultimately show ?thesis by (simp only: t) simp
    next
      assume "t \<in> set ?more"
      then show ?thesis by (rule "1.IH"[OF Cons])
    qed
  qed
qed

lemma split_runs_delims_only: "set s \<subseteq> set d \<Longrightarrow> split_runs s d = []"
proof -
  assume "set s \<subseteq> set d"
  then have a: "dropWhile (\<lambda>c. c \<in> set d) s = []" by auto
  show ?thesis by (subst split_runs.simps) (simp only: a list.case)
qed

lemma split_runs_single:
  assumes "t \<noteq> []" and "set t \<inter> set d = {}"
  shows "split_runs t d = [t]"
proof -
  from assms(2) have all: "\<forall>x\<in>set t. x \<notin> set d" by auto
  from assms(1) obtain c r where t: "t = c # r" by (cases t) auto
  with all have c: "c \<notin> set d" and r: "\<forall>x\<in>set r. x \<notin> set d" by auto
  have a: "dropWhile (\<lambda>c. c \<in> set d) t = c # r" using t c by simp
  have b: "takeWhile (\<lambda>c. c \<notin> set d) (c # r) = t" using c r t by simp
  have e: "dropWhile (\<lambda>c. c \<notin> set d) r = []" using r by simp
  have n: "split_runs [] d = []" by (subst split_runs.simps) simp
  show ?thesis by (subst split_runs.simps) (simp only: a b e n list.case)
qed

text \<open>
  C7. \<^verbatim>\<open>tokenize\<close> returns the maximal runs of non-delimiter characters, in order: a
  run of delimiter characters is one separator. No token is empty and none holds a
  delimiter character, so leading and trailing delimiters give no empty tokens. A line
  that is empty or holds delimiter characters only gives the empty sequence. A quote
  character is ordinary text. \<^verbatim>\<open>tokenize("  a   b ", " ")\<close> is \<^verbatim>\<open>["a", "b"]\<close>.
\<close>

theorem tokenize_splits_on_runs:
  assumes "length s < npos"
  shows "tokenize s d = Some (Inr (split_runs s d))
       \<and> (\<forall>t\<in>set (split_runs s d). t \<noteq> [] \<and> set t \<inter> set d = {})
       \<and> (set s \<subseteq> set d \<longrightarrow> tokenize s d = Some (Inr []))
       \<and> tokenize ''  a   b '' '' '' = Some (Inr [''a'', ''b''])
       \<and> tokenize [dquote, CHR ''a'', CHR '' '', CHR ''b'', dquote] '' ''
           = Some (Inr [[dquote, CHR ''a''], [CHR ''b'', dquote]])"
proof -
  have 1: "tokenize s d = Some (Inr (split_runs s d))"
    using assms by (rule tokenize_eq_split_runs)
  have 2: "\<forall>t\<in>set (split_runs s d). t \<noteq> [] \<and> set t \<inter> set d = {}"
    using split_runs_tokens by blast
  have 3: "set s \<subseteq> set d \<longrightarrow> tokenize s d = Some (Inr [])"
    using 1 split_runs_delims_only[of s d] by simp
  have 4: "tokenize ''  a   b '' '' '' = Some (Inr [''a'', ''b''])"
    by (simp add: tokenize_def tokenize_loop.simps sz_sub_def size_modulus_def
        find_first_not_of_def find_first_of_def substr_def npos_def Let_def)
  have 5: "tokenize [dquote, CHR ''a'', CHR '' '', CHR ''b'', dquote] '' ''
           = Some (Inr [[dquote, CHR ''a''], [CHR ''b'', dquote]])"
    by (simp add: tokenize_def tokenize_loop.simps sz_sub_def size_modulus_def
        find_first_not_of_def find_first_of_def substr_def npos_def Let_def)
  from 1 2 3 4 5 show ?thesis by blast
qed

theorem tokenize_splits_on_runs_witness:
  "length '' a,b;; c '' < npos
   \<and> tokenize '' a,b;; c '' '' ;'' = Some (Inr [''a,b'', ''c''])
   \<and> split_runs '' a,b;; c '' '' ;'' = [''a,b'', ''c'']
   \<and> ''a,b'' \<noteq> [] \<and> set ''a,b'' \<inter> set '' ;'' = {}
   \<and> ''c'' \<noteq> [] \<and> set ''c'' \<inter> set '' ;'' = {}
   \<and> set '' ;; '' \<subseteq> set '' ;'' \<and> tokenize '' ;; '' '' ;'' = Some (Inr [])"
  using tokenize_splits_on_runs[of "'' a,b;; c ''" "'' ;''"]
    tokenize_splits_on_runs[of "'' ;; ''" "'' ;''"]
  by (simp add: npos_def split_runs.simps)

text \<open>
  C8 (as amended). For every non-empty token \<open>t\<close> that holds no delimiter character,
  \<^verbatim>\<open>tokenize\<close> of \<open>t\<close> is the one-element sequence \<open>[t]\<close>. (That \<open>t\<close> holds no quote
  character is not needed.)
\<close>

theorem tokenize_single_token:
  "length t < npos \<Longrightarrow> t \<noteq> [] \<Longrightarrow> set t \<inter> set d = {} \<Longrightarrow>
   tokenize t d = Some (Inr [t])"
  by (simp add: tokenize_eq_split_runs split_runs_single)

theorem tokenize_single_token_witness:
  "length ''abc'' < npos \<and> ''abc'' \<noteq> [] \<and> set ''abc'' \<inter> set '' '' = {}
   \<and> tokenize ''abc'' '' '' = Some (Inr [''abc''])"
  using tokenize_single_token[of "''abc''" "'' ''"] by (simp add: npos_def)

text \<open>
  The empty string holds no delimiter and no quote character, and it is a token that
  \<^verbatim>\<open>tokenize_quoted\<close> can return; \<^verbatim>\<open>tokenize\<close> of it is the empty sequence, not the
  sequence holding it.
\<close>

theorem tokenize_empty_token:
  "tokenize [] '' '' = Some (Inr []) \<and> tokenize [] '' '' \<noteq> Some (Inr [[]])"
  by (simp add: tokenize_def tokenize_loop.simps find_first_not_of_def find_first_of_def
      npos_def Let_def)

subsection \<open>The spaced tokenizer is lossless\<close>

lemma delimiters_at:
  assumes "length s < npos" and "pos \<le> length s"
  shows "substr s pos (sz_sub (find_first_not_of s d pos) pos)
           = Inr (takeWhile (\<lambda>c. c \<in> set d) (drop pos s))"
proof (cases "length (takeWhile (\<lambda>c. c \<in> set d) (drop pos s)) < length (drop pos s)")
  case True
  let ?m = "length (takeWhile (\<lambda>c. c \<in> set d) (drop pos s))"
  from True have f: "find_first_not_of s d pos = pos + ?m" by (simp add: find_first_not_of_def)
  from True assms npos_lt_modulus have "pos + ?m < size_modulus" by simp
  then have "sz_sub (pos + ?m) pos = ?m" by (simp add: sz_sub_le)
  moreover have "take ?m (drop pos s) = takeWhile (\<lambda>c. c \<in> set d) (drop pos s)"
    by (rule takeWhile_eq_take[symmetric])
  ultimately show ?thesis using assms(2) by (simp add: f substr_def)
next
  case False
  then have f: "find_first_not_of s d pos = npos" by (simp add: find_first_not_of_def)
  from False have "\<forall>x\<in>set (drop pos s). x \<in> set d"
    using takeWhile_short[of "\<lambda>c. c \<in> set d" "drop pos s"] by blast
  then have tw: "takeWhile (\<lambda>c. c \<in> set d) (drop pos s) = drop pos s" by simp
  from assms npos_lt_modulus have "sz_sub npos pos = npos - pos" by (simp add: sz_sub_le)
  moreover from assms have "length (drop pos s) \<le> npos - pos" by simp
  ultimately show ?thesis using assms(2) by (simp add: f substr_def tw)
qed

lemma find_first_not_of_after:
  assumes "length s < npos" and "drop pos s = e # r" and "e \<in> set d"
  shows "pos < find_first_not_of s d pos"
proof -
  from drop_ConsD[OF assms(2)] have p: "pos < length s" by simp
  let ?m = "length (takeWhile (\<lambda>c. c \<in> set d) (drop pos s))"
  have "0 < ?m" using assms(2,3) by simp
  moreover have "find_first_not_of s d pos = pos + ?m \<or> find_first_not_of s d pos = npos"
    by (simp add: find_first_not_of_def Let_def)
  ultimately show ?thesis using p assms(1) by auto
qed

lemma tokenize_spaced_loop_exit:
  "tokenize_spaced_loop s d npos npos tokens = Some (Inr tokens)"
  by (subst tokenize_spaced_loop.simps) simp

lemma tokenize_spaced_loop_step_run:
  "lp \<noteq> npos \<Longrightarrow> substr s lp (sz_sub pos lp) = Inr t \<Longrightarrow>
   pos < find_first_not_of s d pos \<Longrightarrow>
   substr s pos (sz_sub (find_first_not_of s d pos) pos) = Inr t' \<Longrightarrow>
   tokenize_spaced_loop s d lp pos tokens =
     tokenize_spaced_loop s d (find_first_not_of s d pos)
       (find_first_of s d (find_first_not_of s d pos)) (tokens @ [t, t'])"
  by (subst tokenize_spaced_loop.simps) (simp add: Let_def)

lemma tokenize_spaced_loop_step_last:
  "lp \<noteq> npos \<Longrightarrow> substr s lp (sz_sub pos lp) = Inr t \<Longrightarrow>
   \<not> pos < find_first_not_of s d pos \<Longrightarrow>
   tokenize_spaced_loop s d lp pos tokens =
     tokenize_spaced_loop s d (find_first_not_of s d pos)
       (find_first_of s d (find_first_not_of s d pos)) (tokens @ [t])"
  by (subst tokenize_spaced_loop.simps) (simp add: Let_def)

lemma tokenize_spaced_loop_from:
  assumes "length s < npos"
  shows "drop lp s = c # r \<Longrightarrow> c \<notin> set d \<Longrightarrow>
         \<exists>more. tokenize_spaced_loop s d lp (find_first_of s d lp) tokens
                   = Some (Inr (tokens @ more)) \<and> concat more = drop lp s"
proof (induction "length (drop lp s)" arbitrary: lp c r tokens rule: less_induct)
  case less
  let ?pos = "find_first_of s d lp"
  let ?t = "takeWhile (\<lambda>c. c \<notin> set d) (drop lp s)"
  let ?w = "dropWhile (\<lambda>c. c \<notin> set d) (drop lp s)"
  let ?lp' = "find_first_not_of s d ?pos"
  from drop_ConsD[OF less.prems(1)] have lp: "lp < length s" by simp
  with assms have ne: "lp \<noteq> npos" by simp
  from lp have lp_le: "lp \<le> length s" by simp
  note t = token_at[OF assms lp_le, of d]
  have w: "drop ?pos s = ?w" by (rule find_first_of_drop[OF assms])
  have split: "?t @ ?w = drop lp s" by (rule takeWhile_dropWhile_id)
  show ?case
  proof (cases ?w)
    case Nil
    then have pos: "?pos = npos" by (simp only: find_first_of_npos_iff[OF assms])
    have lp': "find_first_not_of s d npos = npos"
      using assms by (simp add: find_first_not_of_past_end)
    have pos': "find_first_of s d npos = npos"
      using assms by (simp add: find_first_of_past_end)
    have "tokenize_spaced_loop s d lp ?pos tokens = Some (Inr (tokens @ [?t]))"
      using tokenize_spaced_loop_step_last[OF ne t, where tokens=tokens]
      by (simp add: pos lp' pos' tokenize_spaced_loop_exit)
    moreover have "concat [?t] = drop lp s" using split Nil by simp
    ultimately show ?thesis by blast
  next
    case (Cons e r2)
    from dropWhile_Cons_head[OF Cons] have e: "e \<in> set d" by simp
    from Cons w have dp: "drop ?pos s = e # r2" by simp
    from drop_ConsD[OF dp] have pos_le: "?pos \<le> length s" by simp
    have gt: "?pos < ?lp'" by (rule find_first_not_of_after[OF assms dp e])
    let ?t' = "takeWhile (\<lambda>c. c \<in> set d) (drop ?pos s)"
    let ?w' = "dropWhile (\<lambda>c. c \<in> set d) (drop ?pos s)"
    note t' = delimiters_at[OF assms pos_le, of d]
    have w': "drop ?lp' s = ?w'" by (rule find_first_not_of_drop[OF assms])
    have split': "?t' @ ?w' = ?w" by (simp only: w takeWhile_dropWhile_id)
    have step: "tokenize_spaced_loop s d lp ?pos tokens
        = tokenize_spaced_loop s d ?lp' (find_first_of s d ?lp') (tokens @ [?t, ?t'])"
      by (rule tokenize_spaced_loop_step_run[OF ne t gt t'])
    show ?thesis
    proof (cases ?w')
      case Nil
      then have l: "?lp' = npos" by (simp only: find_first_not_of_npos_iff[OF assms])
      have pos': "find_first_of s d npos = npos"
        using assms by (simp add: find_first_of_past_end)
      have "tokenize_spaced_loop s d lp ?pos tokens = Some (Inr (tokens @ [?t, ?t']))"
        by (simp only: step l pos' tokenize_spaced_loop_exit)
      moreover have "concat [?t, ?t'] = drop lp s"
        using split split' Nil by simp
      ultimately show ?thesis by blast
    next
      case c': (Cons c' r')
      from dropWhile_Cons_head[OF c'] have c'n: "c' \<notin> set d" by simp
      from c' w' have dl: "drop ?lp' s = c' # r'" by simp
      have "length (drop ?lp' s) \<le> length (drop ?pos s)"
        by (simp only: w' length_dropWhile_le)
      also have "length (drop ?pos s) < length (drop lp s)"
      proof -
        have "?t \<noteq> []" using less.prems by simp
        then have "0 < length ?t" by simp
        moreover have "length ?t + length ?w = length (drop lp s)"
          using arg_cong[OF split, of length] by (simp only: length_append)
        ultimately have "length ?w < length (drop lp s)" by linarith
        then show ?thesis by (simp only: w)
      qed
      finally have dec: "length (drop ?lp' s) < length (drop lp s)" .
      from less.hyps[OF dec dl c'n, of "tokens @ [?t, ?t']"]
      obtain more where m: "tokenize_spaced_loop s d ?lp' (find_first_of s d ?lp')
              (tokens @ [?t, ?t']) = Some (Inr ((tokens @ [?t, ?t']) @ more))"
        and cm: "concat more = drop ?lp' s" by blast
      have "tokenize_spaced_loop s d lp ?pos tokens
              = Some (Inr (tokens @ ([?t, ?t'] @ more)))"
        by (simp only: step m append_assoc)
      moreover have "concat ([?t, ?t'] @ more) = drop lp s"
        using cm w' split split' by simp
      ultimately show ?thesis by blast
    qed
  qed
qed

text \<open>
  C1. For every input string and delimiter set, \<^verbatim>\<open>tokenize_spaced\<close> returns a token
  sequence whose concatenation, in order, is the input string.
\<close>

theorem tokenize_spaced_lossless:
  assumes "length s < npos"
  shows "\<exists>tokens. tokenize_spaced s d = Some (Inr tokens) \<and> concat tokens = s"
proof -
  let ?lp = "find_first_not_of s d 0"
  let ?t0 = "takeWhile (\<lambda>c. c \<in> set d) s"
  let ?w0 = "dropWhile (\<lambda>c. c \<in> set d) s"
  have "?lp \<le> npos"
    using assms by (simp add: find_first_not_of_def Let_def)
  with npos_lt_modulus have "sz_sub ?lp 0 = ?lp" by (simp add: sz_sub_le)
  with delimiters_at[OF assms, of 0 d] have lead: "substr s 0 ?lp = Inr ?t0" by simp
  have w0: "drop ?lp s = ?w0" using find_first_not_of_drop[OF assms, of d 0] by simp
  show ?thesis
  proof (cases ?w0)
    case Nil
    then have l: "?lp = npos" using find_first_not_of_npos_iff[OF assms, of d 0] by simp
    have pos: "find_first_of s d npos = npos"
      using assms by (simp add: find_first_of_past_end)
    from Nil have "?t0 = s" using takeWhile_dropWhile_id[of "\<lambda>c. c \<in> set d" s] by simp
    with lead l pos show ?thesis
      by (simp add: tokenize_spaced_def npos_def[symmetric] tokenize_spaced_loop_exit Let_def npos_pos)
  next
    case (Cons c r)
    from dropWhile_Cons_head[OF Cons] have c: "c \<notin> set d" by simp
    from Cons w0 have dl: "drop ?lp s = c # r" by simp
    show ?thesis
    proof (cases "?lp = 0")
      case True
      from tokenize_spaced_loop_from[OF assms dl c, of "[]"] True
      show ?thesis by (simp add: tokenize_spaced_def Let_def)
    next
      case False
      from tokenize_spaced_loop_from[OF assms dl c, of "[?t0]"]
      obtain more where m: "tokenize_spaced_loop s d ?lp (find_first_of s d ?lp) [?t0]
            = Some (Inr ([?t0] @ more))" and cm: "concat more = drop ?lp s" by blast
      have "concat ([?t0] @ more) = s"
        using cm w0 by simp
      with m False lead show ?thesis
        by (simp add: tokenize_spaced_def Let_def)
    qed
  qed
qed

theorem tokenize_spaced_lossless_witness:
  "length ''  a b  '' < npos
   \<and> (\<exists>tokens. tokenize_spaced ''  a b  '' '' '' = Some (Inr tokens)
         \<and> concat tokens = ''  a b  '')"
  using tokenize_spaced_lossless[of "''  a b  ''" "'' ''"] by (simp add: npos_def)

subsection \<open>The newline-expansion tokenizer\<close>

lemma unat_succ_32: "unat (i :: 32 word) < n \<Longrightarrow> n < 2 ^ 32 \<Longrightarrow> unat (i + 1) = unat i + 1"
  using unat_add_lem[of i 1] by simp

lemma push_newlines_guard:
  "\<not> guard \<Longrightarrow> push_newlines guard i n tokens = Some tokens"
  by (subst push_newlines.simps) simp

lemma push_newlines_from:
  "n < 2 ^ 32 \<Longrightarrow> unat i \<le> n \<Longrightarrow>
   push_newlines True i n tokens = Some (tokens @ replicate (n - unat i) [line_feed])"
proof (induction "n - unat i" arbitrary: i tokens rule: less_induct)
  case less
  show ?case
  proof (cases "unat i < n")
    case False
    with less.prems have "n - unat i = 0" by simp
    with False show ?thesis by (subst push_newlines.simps) simp
  next
    case True
    from unat_succ_32[OF True less.prems(1)] have u: "unat (i + 1) = unat i + 1" .
    with True have dec: "n - unat (i + 1) < n - unat i" and le: "unat (i + 1) \<le> n" by simp_all
    from True have r: "replicate (n - unat i) [line_feed]
        = [line_feed] # replicate (n - unat (i + 1)) [line_feed]"
      by (simp add: u replicate_Suc[symmetric] Suc_diff_Suc del: replicate_Suc)
    have "push_newlines True i n tokens = push_newlines True (i + 1) n (tokens @ [[line_feed]])"
      using True by (subst push_newlines.simps) simp
    also have "\<dots> = Some ((tokens @ [[line_feed]]) @ replicate (n - unat (i + 1)) [line_feed])"
      by (rule less.hyps[OF dec less.prems(1) le])
    finally show ?thesis by (simp only: r) simp
  qed
qed

lemma push_newlines_count:
  "n < 2 ^ 32 \<Longrightarrow> push_newlines True 0 n tokens = Some (tokens @ replicate n [line_feed])"
  using push_newlines_from[of n 0 tokens] by simp

lemma push_newlines_returns_bound:
  "push_newlines guard i n tokens = Some y \<Longrightarrow> \<not> (guard \<and> 2 ^ 32 \<le> n)"
proof (induction rule: push_newlines.raw_induct[rotated 1, consumes 1])
  case (1 f guard i n tokens y)
  show ?case
  proof (cases "guard \<and> unat i < n")
    case True
    with 1(2) have "f guard (i + 1) n (tokens @ [[line_feed]]) = Some y" by simp
    then show ?thesis by (rule 1(1))
  next
    case False
    have "unat i < 2 ^ 32" using unsigned_less[of i] by simp
    with False show ?thesis by auto
  qed
qed

lemma push_newlines_diverges:
  "2 ^ 32 \<le> n \<Longrightarrow> push_newlines True i n tokens = None"
  using push_newlines_returns_bound[of True i n tokens] by (cases "push_newlines True i n tokens") auto

lemma split_runs_skip:
  "split_runs s d = split_runs (dropWhile (\<lambda>c. c \<in> set d) s) d"
proof (cases "dropWhile (\<lambda>c. c \<in> set d) s")
  case Nil
  have e: "split_runs [] d = []" by (rule split_runs_Nil) simp
  show ?thesis by (simp only: Nil split_runs_Nil[OF Nil] e)
next
  case (Cons c r)
  from dropWhile_Cons_head[OF Cons] have "dropWhile (\<lambda>c. c \<in> set d) (c # r) = c # r" by simp
  from split_runs_Cons[OF this] split_runs_Cons[OF Cons] Cons show ?thesis by simp
qed

lemma split_runs_run:
  assumes "w = c # r" and "c \<notin> set d"
  shows "split_runs w d = takeWhile (\<lambda>c. c \<notin> set d) w
                            # split_runs (dropWhile (\<lambda>c. c \<notin> set d) w) d"
proof -
  from assms have "dropWhile (\<lambda>c. c \<in> set d) w = c # r" by simp
  from split_runs_Cons[OF this] assms show ?thesis by simp
qed

lemma inner_delimiters_skip_token:
  "inner_delimiters w d = inner_delimiters (dropWhile (\<lambda>c. c \<notin> set d) w) d"
  by (induction w) auto

lemma inner_delimiters_trailing: "set w \<subseteq> set d \<Longrightarrow> inner_delimiters w d = 0"
  by (induction w) auto

lemma inner_delimiters_leading:
  "\<not> set w \<subseteq> set d \<Longrightarrow>
   inner_delimiters w d = length (takeWhile (\<lambda>c. c \<in> set d) w)
                            + inner_delimiters (dropWhile (\<lambda>c. c \<in> set d) w) d"
  by (induction w) auto

lemma newline_tokens_append [simp]:
  "newline_tokens (xs @ ys) = newline_tokens xs + newline_tokens ys"
  by (simp add: newline_tokens_def)

lemma newline_tokens_replicate [simp]:
  "newline_tokens (replicate n [line_feed]) = n"
  by (simp add: newline_tokens_def)

lemma newline_tokens_Cons:
  "newline_tokens (t # ts) = newline_tokens [t] + newline_tokens ts"
  by (simp add: newline_tokens_def)

lemma tokenize_nl_loop_exit:
  "tokenize_nl_loop s d npos npos tokens = Some (Inr tokens)"
  by (subst tokenize_nl_loop.simps) simp

lemma tokenize_nl_loop_step:
  "lp \<noteq> npos \<Longrightarrow> substr s lp (sz_sub pos lp) = Inr t \<Longrightarrow>
   push_newlines (find_first_not_of s d pos \<noteq> npos \<and> pos \<noteq> npos) 0
     (sz_sub (find_first_not_of s d pos) pos) (tokens @ [t]) = Some tokens' \<Longrightarrow>
   tokenize_nl_loop s d lp pos tokens =
     tokenize_nl_loop s d (find_first_not_of s d pos)
       (find_first_of s d (find_first_not_of s d pos)) tokens'"
  by (subst tokenize_nl_loop.simps) (simp add: Let_def)

lemma dropWhile_Nil_subset: "dropWhile (\<lambda>c. c \<in> set d) w = [] \<longleftrightarrow> set w \<subseteq> set d"
  by auto

lemma tokenize_nl_loop_from:
  assumes "length s < 2 ^ 32"
  shows "drop lp s = c # r \<Longrightarrow> c \<notin> set d \<Longrightarrow>
         \<exists>more. tokenize_nl_loop s d lp (find_first_of s d lp) tokens
                   = Some (Inr (tokens @ more))
              \<and> newline_tokens more
                   = inner_delimiters (drop lp s) d + newline_tokens (split_runs (drop lp s) d)"
proof (induction "length (drop lp s)" arbitrary: lp c r tokens rule: less_induct)
  case less
  from assms have len: "length s < npos" by (simp add: npos_def)
  let ?pos = "find_first_of s d lp"
  let ?t = "takeWhile (\<lambda>c. c \<notin> set d) (drop lp s)"
  let ?w = "dropWhile (\<lambda>c. c \<notin> set d) (drop lp s)"
  let ?lp' = "find_first_not_of s d ?pos"
  let ?t' = "takeWhile (\<lambda>c. c \<in> set d) ?w"
  let ?w' = "dropWhile (\<lambda>c. c \<in> set d) ?w"
  from drop_ConsD[OF less.prems(1)] have lp: "lp < length s" by simp
  with len have ne: "lp \<noteq> npos" by simp
  from lp have lp_le: "lp \<le> length s" by simp
  note t = token_at[OF len lp_le, of d]
  have w: "drop ?pos s = ?w" by (rule find_first_of_drop[OF len])
  have w': "drop ?lp' s = ?w'" by (simp only: find_first_not_of_drop[OF len] w)
  have runs: "split_runs (drop lp s) d = ?t # split_runs ?w' d"
    using split_runs_run[OF less.prems] split_runs_skip[of ?w d] by simp
  have inner: "inner_delimiters (drop lp s) d = inner_delimiters ?w d"
    by (rule inner_delimiters_skip_token)
  have exit: "find_first_of s d npos = npos"
    using len by (simp add: find_first_of_past_end)
  show ?case
  proof (cases ?w')
    case Nil
    then have l: "?lp' = npos"
      using find_first_not_of_npos_iff[OF len, of d ?pos] by (simp only: w)
    have "tokenize_nl_loop s d lp ?pos tokens = Some (Inr (tokens @ [?t]))"
      using tokenize_nl_loop_step[OF ne t, where tokens=tokens and tokens'="tokens @ [?t]"]
      by (simp add: l push_newlines_guard exit tokenize_nl_loop_exit)
    moreover have "split_runs ?w' d = []" by (rule split_runs_Nil) (simp add: Nil)
    moreover from Nil have "inner_delimiters ?w d = 0"
      by (intro inner_delimiters_trailing) (simp only: dropWhile_Nil_subset[symmetric])
    ultimately show ?thesis using runs inner by auto
  next
    case (Cons c' r')
    from dropWhile_Cons_head[OF Cons] have c'n: "c' \<notin> set d" by simp
    from Cons w' have dl: "drop ?lp' s = c' # r'" by simp
    from Cons have l: "?lp' \<noteq> npos"
      using find_first_not_of_npos_iff[OF len, of d ?pos] by (simp only: w) simp
    from Cons have nsub: "\<not> set ?w \<subseteq> set d"
      by (simp only: dropWhile_Nil_subset[symmetric]) simp
    have "?w \<noteq> []"
    proof
      assume "?w = []"
      then have "?w' = []" by (simp only: dropWhile.simps)
      with Cons show False by simp
    qed
    then have p: "?pos \<noteq> npos"
      using find_first_of_npos_iff[OF len, of d lp] by simp
    from \<open>?w \<noteq> []\<close> obtain e r2 where "?w = e # r2" by (cases ?w) simp_all
    with w have "drop ?pos s = e # r2" by (simp only:)
    from drop_ConsD[OF this] have pos_le: "?pos \<le> length s" by simp
    have "substr s ?pos (sz_sub ?lp' ?pos) = Inr ?t'"
      using delimiters_at[OF len pos_le, of d] by (simp only: w)
    have k: "sz_sub ?lp' ?pos = length ?t'"
    proof -
      have "length ?t' < length ?w"
        using nsub by (auto simp: takeWhile_short)
      then have "?lp' = ?pos + length ?t'"
        by (simp add: find_first_not_of_def[of s d ?pos] w)
      moreover have "?lp' < size_modulus"
        using l dl drop_ConsD[OF dl] len npos_lt_modulus by simp
      ultimately show ?thesis by (simp add: sz_sub_le)
    qed
    have kb: "length ?t' < 2 ^ 32"
    proof -
      have "length ?t' \<le> length ?w" by (rule length_takeWhile_le)
      also have "\<dots> \<le> length s" by (simp only: w[symmetric]) simp
      finally show ?thesis using assms by simp
    qed
    have push: "push_newlines (?lp' \<noteq> npos \<and> ?pos \<noteq> npos) 0 (sz_sub ?lp' ?pos) (tokens @ [?t])
        = Some ((tokens @ [?t]) @ replicate (length ?t') [line_feed])"
      using l p push_newlines_count[OF kb] by (simp only: k) simp
    have step: "tokenize_nl_loop s d lp ?pos tokens
        = tokenize_nl_loop s d ?lp' (find_first_of s d ?lp')
            ((tokens @ [?t]) @ replicate (length ?t') [line_feed])"
      by (rule tokenize_nl_loop_step[OF ne t push])
    have "length (drop ?lp' s) \<le> length ?w"
      by (simp only: w' length_dropWhile_le)
    also have "length ?w < length (drop lp s)"
    proof -
      have "?t \<noteq> []" using less.prems by simp
      then have "0 < length ?t" by simp
      moreover have "length ?t + length ?w = length (drop lp s)"
        using arg_cong[OF takeWhile_dropWhile_id[of "\<lambda>c. c \<notin> set d" "drop lp s"], of length]
        by (simp only: length_append)
      ultimately show ?thesis by linarith
    qed
    finally have dec: "length (drop ?lp' s) < length (drop lp s)" .
    from less.hyps[OF dec dl c'n,
        of "(tokens @ [?t]) @ replicate (length ?t') [line_feed]"]
    obtain more where m: "tokenize_nl_loop s d ?lp' (find_first_of s d ?lp')
            ((tokens @ [?t]) @ replicate (length ?t') [line_feed])
          = Some (Inr (((tokens @ [?t]) @ replicate (length ?t') [line_feed]) @ more))"
      and cm: "newline_tokens more
          = inner_delimiters (drop ?lp' s) d + newline_tokens (split_runs (drop ?lp' s) d)"
      by blast
    have "tokenize_nl_loop s d lp ?pos tokens
        = Some (Inr (tokens @ ([?t] @ replicate (length ?t') [line_feed] @ more)))"
      using m by (simp add: step)
    moreover have "newline_tokens ([?t] @ replicate (length ?t') [line_feed] @ more)
        = inner_delimiters (drop lp s) d + newline_tokens (split_runs (drop lp s) d)"
      using cm inner_delimiters_leading[OF nsub] newline_tokens_Cons[of ?t "split_runs ?w' d"]
      by (simp only: runs inner w' newline_tokens_append newline_tokens_replicate)
    ultimately show ?thesis by blast
  qed
qed

lemma tokenize_nl_count:
  assumes "length s < 2 ^ 32"
  shows "\<exists>tokens. tokenize_nl s d = Some (Inr tokens)
           \<and> newline_tokens tokens
               = (if set s \<subseteq> set d then length s else inner_delimiters s d)
                 + newline_tokens (split_runs s d)"
proof -
  from assms have len: "length s < npos" by (simp add: npos_def)
  let ?lp = "find_first_not_of s d 0"
  let ?t0 = "takeWhile (\<lambda>c. c \<in> set d) s"
  let ?w0 = "dropWhile (\<lambda>c. c \<in> set d) s"
  have w0: "drop ?lp s = ?w0" using find_first_not_of_drop[OF len, of d 0] by simp
  show ?thesis
  proof (cases ?w0)
    case Nil
    then have l: "?lp = npos" using find_first_not_of_npos_iff[OF len, of d 0] by simp
    have pos: "find_first_of s d npos = npos"
      using len by (simp add: find_first_of_past_end)
    from Nil have sub: "set s \<subseteq> set d" by (simp only: dropWhile_Nil_subset)
    have "tokenize_nl s d = Some (Inr (replicate (length s) [line_feed]))"
      using push_newlines_count[OF assms, of "[]"]
      by (simp add: tokenize_nl_def l pos tokenize_nl_loop_exit)
    moreover have "split_runs s d = []" by (rule split_runs_Nil[OF Nil])
    ultimately show ?thesis using sub by (simp add: newline_tokens_def)
  next
    case (Cons c r)
    from dropWhile_Cons_head[OF Cons] have c: "c \<notin> set d" by simp
    from Cons w0 have dl: "drop ?lp s = c # r" by simp
    from Cons have nsub: "\<not> set s \<subseteq> set d"
      by (simp only: dropWhile_Nil_subset[symmetric]) simp
    from Cons have l: "?lp \<noteq> npos" using find_first_not_of_npos_iff[OF len, of d 0] by simp
    have lp: "?lp = length ?t0"
      using l by (simp add: find_first_not_of_def Let_def split: if_splits)
    have "length ?t0 \<le> length s" by (rule length_takeWhile_le)
    with assms have kb: "length ?t0 < 2 ^ 32" by simp
    from tokenize_nl_loop_from[OF assms dl c, of "replicate (length ?t0) [line_feed]"]
    obtain more where m: "tokenize_nl_loop s d ?lp (find_first_of s d ?lp)
            (replicate (length ?t0) [line_feed])
          = Some (Inr (replicate (length ?t0) [line_feed] @ more))"
      and cm: "newline_tokens more
          = inner_delimiters (drop ?lp s) d + newline_tokens (split_runs (drop ?lp s) d)"
      by blast
    have "tokenize_nl s d = Some (Inr (replicate (length ?t0) [line_feed] @ more))"
      using push_newlines_count[OF kb, of "[]"] l m
      by (simp add: tokenize_nl_def Let_def lp[symmetric])
    moreover have "newline_tokens (replicate (length ?t0) [line_feed] @ more)
        = inner_delimiters s d + newline_tokens (split_runs s d)"
      using cm inner_delimiters_leading[OF nsub] split_runs_skip[of s d]
      by (simp add: w0)
    ultimately show ?thesis using nsub by auto
  qed
qed

lemma newline_fields_none:
  assumes "line_feed \<in> set d"
  shows "newline_tokens (split_runs s d) = 0"
proof -
  have "[line_feed] \<notin> set (split_runs s d)"
  proof
    assume "[line_feed] \<in> set (split_runs s d)"
    from split_runs_tokens[OF this] assms show False by simp
  qed
  then have "filter (\<lambda>t. t = [line_feed]) (split_runs s d) = []"
    by (auto simp: filter_empty_conv)
  then show ?thesis by (simp add: newline_tokens_def)
qed

lemma inner_delimiters_no_trailing:
  "s \<noteq> [] \<Longrightarrow> last s \<notin> set d \<Longrightarrow> inner_delimiters s d = delimiter_count s d"
proof (induction s)
  case Nil
  then show ?case by simp
next
  case (Cons c cs)
  show ?case
  proof (cases "cs = []")
    case True
    with Cons.prems show ?thesis by (simp add: delimiter_count_def)
  next
    case False
    with Cons.prems have l: "last cs \<notin> set d" by simp
    with False have "\<not> set cs \<subseteq> set d" using last_in_set[OF False] by blast
    with Cons.IH[OF False l] show ?thesis by (simp add: delimiter_count_def)
  qed
qed

text \<open>
  C2 (as amended). For every input string shorter than \<open>2^32\<close> characters and every
  delimiter set, \<^verbatim>\<open>tokenize_nl\<close> returns, and the number of its tokens that are a single
  newline character is \<open>N + F\<close>: \<open>N\<close> is the number of delimiter characters of the input
  that have a non-delimiter character somewhere after them (the length of the input when
  it holds delimiter characters only), and \<open>F\<close> is the number of maximal non-delimiter
  runs of the input that are themselves a single newline character. \<open>F\<close> is \<open>0\<close> when
  the newline character is a delimiter, and \<open>N\<close> is the number of all delimiter
  characters when the input does not end in one. So a leading or inner run of \<open>k\<close>
  delimiter characters gives \<open>k\<close> newline tokens, and a trailing run after a
  non-delimiter character gives none.
\<close>

theorem tokenize_nl_newline_tokens:
  assumes "length s < 2 ^ 32"
  shows "(\<exists>tokens. tokenize_nl s d = Some (Inr tokens)
           \<and> newline_tokens tokens
               = (if set s \<subseteq> set d then length s else inner_delimiters s d)
                 + newline_tokens (split_runs s d))
       \<and> (line_feed \<in> set d \<longrightarrow> newline_tokens (split_runs s d) = 0)
       \<and> (s \<noteq> [] \<and> last s \<notin> set d \<longrightarrow> inner_delimiters s d = delimiter_count s d)"
  using tokenize_nl_count[OF assms, of d] newline_fields_none[of d s]
    inner_delimiters_no_trailing[of s d]
  by blast

theorem tokenize_nl_newline_tokens_witness:
  "length ''  a  b '' < (2::nat) ^ 32
   \<and> (\<exists>tokens. tokenize_nl ''  a  b '' [CHR '' '', line_feed] = Some (Inr tokens)
         \<and> newline_tokens tokens = 4)
   \<and> \<not> set ''  a  b '' \<subseteq> set [CHR '' '', line_feed]
   \<and> inner_delimiters ''  a  b '' [CHR '' '', line_feed] = 4
   \<and> line_feed \<in> set [CHR '' '', line_feed]
   \<and> newline_tokens (split_runs ''  a  b '' [CHR '' '', line_feed]) = 0
   \<and> ''  a  b'' \<noteq> [] \<and> last ''  a  b'' \<notin> set [CHR '' '', line_feed]
   \<and> inner_delimiters ''  a  b'' [CHR '' '', line_feed]
       = delimiter_count ''  a  b'' [CHR '' '', line_feed]"
proof -
  let ?d = "[CHR '' '', line_feed]"
  have h: "length ''  a  b '' < (2::nat) ^ 32" by simp
  have h': "length ''  a  b'' < (2::nat) ^ 32" by simp
  have n: "\<not> set ''  a  b '' \<subseteq> set ?d" by simp
  have i: "inner_delimiters ''  a  b '' ?d = 4" by simp
  have lf: "line_feed \<in> set ?d" by simp
  have l: "''  a  b'' \<noteq> [] \<and> last ''  a  b'' \<notin> set ?d" by simp
  from tokenize_nl_newline_tokens[OF h, of ?d] lf
  have f: "newline_tokens (split_runs ''  a  b '' ?d) = 0" by blast
  from tokenize_nl_newline_tokens[OF h, of ?d]
  have "\<exists>tokens. tokenize_nl ''  a  b '' ?d = Some (Inr tokens)
          \<and> newline_tokens tokens = 4"
    by (simp only: n i f if_False) simp
  moreover from tokenize_nl_newline_tokens[OF h', of ?d] l
  have "inner_delimiters ''  a  b'' ?d = delimiter_count ''  a  b'' ?d" by blast
  ultimately show ?thesis using h n i lf f l by blast
qed

text \<open>
  The claim as written fails on a trailing run: the inner \<^verbatim>\<open>for\<close> loop is guarded by
  \<^verbatim>\<open>last_pos != npos\<close>, so nothing is pushed for the two delimiter characters that end
  \<^verbatim>\<open>"a  "\<close>.
\<close>

theorem tokenize_nl_trailing_run:
  "tokenize_nl ''a  '' '' '' = Some (Inr [''a''])
   \<and> newline_tokens [''a''] = 0 \<and> delimiter_count ''a  '' '' '' = 2"
  by (simp add: tokenize_nl_def tokenize_nl_loop.simps push_newlines.simps sz_sub_def
      size_modulus_def find_first_not_of_def find_first_of_def substr_def npos_def Let_def
      newline_tokens_def delimiter_count_def)

text \<open>
  Two more inputs show why the amended statement has its other two parts. A
  non-delimiter run that is itself a newline is a newline token although the input has
  no delimiter character; and with \<open>2^32\<close> leading delimiter characters the 32-bit
  counter never reaches the bound, so the first loop does not end.
\<close>

lemma tokenize_nl_newline_field:
  "tokenize_nl [line_feed] '' '' = Some (Inr [[line_feed]])
   \<and> newline_tokens [[line_feed]] = 1 \<and> delimiter_count [line_feed] '' '' = 0"
  by (simp add: tokenize_nl_def tokenize_nl_loop.simps push_newlines.simps sz_sub_def
      size_modulus_def find_first_not_of_def find_first_of_def substr_def npos_def Let_def
      newline_tokens_def delimiter_count_def)

lemma tokenize_nl_counter_wraps:
  "tokenize_nl (replicate (2 ^ 32) (CHR '' '')) '' '' = None"
proof -
  let ?s = "replicate (2 ^ 32) (CHR '' '')"
  have "length ?s < npos" by (simp add: npos_def)
  from find_first_not_of_npos_iff[OF this, of "'' ''" 0]
  have "find_first_not_of ?s '' '' 0 = npos" by simp
  moreover have "push_newlines True 0 (length ?s) [] = None"
    by (rule push_newlines_diverges) simp
  ultimately show ?thesis by (simp add: tokenize_nl_def Let_def)
qed

subsection \<open>The escape resolver\<close>

text \<open>
  C5. \<^verbatim>\<open>append_escapes\<close> appends a line feed for \<open>n\<close>, a carriage return for \<open>r\<close>, a
  tab for \<open>t\<close>, a double quote for a double quote, one backslash for a backslash, the
  two characters backslash and backtick for a backtick, and for every other character
  that character alone. These cases cover every character, so it is total.
\<close>

theorem append_escapes_mapping:
  "append_escapes str (CHR ''n'') = str @ [line_feed]
   \<and> append_escapes str (CHR ''r'') = str @ [carriage_return]
   \<and> append_escapes str (CHR ''t'') = str @ [tab]
   \<and> append_escapes str dquote = str @ [dquote]
   \<and> append_escapes str backslash = str @ [backslash]
   \<and> append_escapes str backtick = str @ [backslash, backtick]
   \<and> (c \<notin> {CHR ''n'', CHR ''r'', CHR ''t'', dquote, backslash, backtick}
        \<longrightarrow> append_escapes str c = str @ [c])"
  by (simp add: append_escapes_def)

theorem append_escapes_mapping_witness:
  "CHR ''x'' \<notin> {CHR ''n'', CHR ''r'', CHR ''t'', dquote, backslash, backtick}
   \<and> append_escapes ''ab'' (CHR ''x'') = ''abx''
   \<and> append_escapes ''ab'' (CHR ''n'') = [CHR ''a'', CHR ''b'', line_feed]
   \<and> append_escapes ''ab'' backtick = [CHR ''a'', CHR ''b'', backslash, backtick]"
  using append_escapes_mapping[of "''ab''" "CHR ''x''"] by simp

subsection \<open>The spaced tokenizer on the empty line\<close>

text \<open>
  C9. For the empty line and any delimiter set, \<^verbatim>\<open>tokenize_spaced\<close> returns the
  one-element sequence holding the empty string: \<^verbatim>\<open>find_first_not_of\<close> fails, so
  \<^verbatim>\<open>last_pos\<close> is \<^verbatim>\<open>npos\<close>, which is not \<open>0\<close>, and \<^verbatim>\<open>substr(0, npos)\<close> of the empty line
  is pushed.
\<close>

theorem tokenize_spaced_empty_line:
  "tokenize_spaced [] d = Some (Inr [[]])"
  by (simp add: tokenize_spaced_def find_first_not_of_def find_first_of_def substr_def
      npos_def tokenize_spaced_loop.simps)

theorem tokenize_spaced_empty_line_witness:
  "tokenize_spaced [] '' '' = Some (Inr [[]])"
  using tokenize_spaced_empty_line[of "'' ''"] by simp

end
